theory Spec2Isabelle
  imports Complex_Main
begin

section \<open>Host facilities: strings and the timer queue\<close>

text \<open>
  The development embeds the stateful logic of \<^verbatim>\<open>src/App.jsx\<close>: the typewriter effect of
  \<^verbatim>\<open>Hero\<close>, the hook \<^verbatim>\<open>useReveal\<close> with its wrapper \<^verbatim>\<open>Reveal\<close>, the submit handler of
  \<^verbatim>\<open>Contact\<close> and the hook \<^verbatim>\<open>useTheme\<close>. The browser's timer queue and the framework's
  effect discipline (cleanup, then the effect again, whenever a dependency changed) are
  written out as explicit state.
\<close>

text \<open>
  \<^verbatim>\<open>s.slice(0, e)\<close> of JavaScript: a negative end counts from the end of the string, an
  end beyond the length is the length.
\<close>

definition slice0 :: "string \<Rightarrow> int \<Rightarrow> string" where
  "slice0 s e = (if e < 0 then take (nat (int (length s) + e)) s else take (nat e) s)"

text \<open>\<^verbatim>\<open>roles[i]\<close>: \<open>None\<close> is JavaScript's \<^verbatim>\<open>undefined\<close> of an index out of range.\<close>

definition role_at :: "string list \<Rightarrow> nat \<Rightarrow> string option" where
  "role_at roles i = (if i < length roles then Some (roles ! i) else None)"

text \<open>
  A timer callback of the typewriter: the tick of the effect, which closes over the
  \<^verbatim>\<open>charIdx\<close>, \<^verbatim>\<open>deleting\<close> and \<^verbatim>\<open>roleIdx\<close> of the render that scheduled it, or the nested
  \<^verbatim>\<open>() => setDeleting(true)\<close>.
\<close>

datatype callback = Tick int bool nat | Pause

record timer =
  tid :: nat
  due :: nat
  cb :: callback

section \<open>The typewriter of Hero\<close>

text \<open>
  The four \<^verbatim>\<open>useState\<close> cells of \<^verbatim>\<open>Hero\<close>, then the bookkeeping of the host: the
  dependencies the effect last ran with, the handle \<^verbatim>\<open>timeout\<close> its cleanup closes over,
  the pending timers in creation order, the next free handle, the clock in milliseconds,
  whether the component is mounted, the number of uncaught exceptions, and the number of
  state setter calls made after unmount (which the framework ignores).
\<close>

record hero =
  typed :: string
  roleIdx :: nat
  charIdx :: int
  deleting :: bool
  deps :: "int \<times> bool \<times> nat"
  timeout :: "nat option"
  timers :: "timer list"
  next_id :: nat
  now :: nat
  mounted :: bool
  thrown :: nat
  late_sets :: nat

text \<open>The role list of the source.\<close>

definition roles_src :: "string list" where
  "roles_src = [''Business Analyst'', ''Data Analyst'', ''Analytics Consultant'']"

definition setTimeout :: "callback \<Rightarrow> nat \<Rightarrow> hero \<Rightarrow> hero" where
  "setTimeout f ms s =
     s\<lparr>timers := timers s @ [\<lparr>tid = next_id s, due = now s + ms, cb = f\<rparr>],
       next_id := Suc (next_id s)\<rparr>"

definition clearTimeout :: "nat \<Rightarrow> hero \<Rightarrow> hero" where
  "clearTimeout h s = s\<lparr>timers := filter (\<lambda>t. tid t \<noteq> h) (timers s)\<rparr>"

definition setTyped :: "string \<Rightarrow> hero \<Rightarrow> hero" where
  "setTyped v s = (if mounted s then s\<lparr>typed := v\<rparr> else s\<lparr>late_sets := Suc (late_sets s)\<rparr>)"

definition setCharIdx :: "(int \<Rightarrow> int) \<Rightarrow> hero \<Rightarrow> hero" where
  "setCharIdx f s =
     (if mounted s then s\<lparr>charIdx := f (charIdx s)\<rparr> else s\<lparr>late_sets := Suc (late_sets s)\<rparr>)"

definition setDeleting :: "bool \<Rightarrow> hero \<Rightarrow> hero" where
  "setDeleting v s =
     (if mounted s then s\<lparr>deleting := v\<rparr> else s\<lparr>late_sets := Suc (late_sets s)\<rparr>)"

definition setRoleIdx :: "(nat \<Rightarrow> nat) \<Rightarrow> hero \<Rightarrow> hero" where
  "setRoleIdx f s =
     (if mounted s then s\<lparr>roleIdx := f (roleIdx s)\<rparr> else s\<lparr>late_sets := Suc (late_sets s)\<rparr>)"

definition throw :: "hero \<Rightarrow> hero" where
  "throw s = s\<lparr>thrown := Suc (thrown s)\<rparr>"

text \<open>
  The body of the effect: one timer, after 60 ms when deleting and 100 ms otherwise, whose
  handle the cleanup keeps.
\<close>

definition effect_run :: "hero \<Rightarrow> hero" where
  "effect_run s =
     (setTimeout (Tick (charIdx s) (deleting s) (roleIdx s)) (if deleting s then 60 else 100) s)
       \<lparr>timeout := Some (next_id s), deps := (charIdx s, deleting s, roleIdx s)\<rparr>"

text \<open>The cleanup \<^verbatim>\<open>() => clearTimeout(timeout)\<close>.\<close>

definition effect_cleanup :: "hero \<Rightarrow> hero" where
  "effect_cleanup s = (case timeout s of None \<Rightarrow> s | Some h \<Rightarrow> clearTimeout h s)"

text \<open>
  A render after a state change: the effect depends on \<^verbatim>\<open>[charIdx, deleting, roleIdx]\<close>, so
  it is cleaned up and run again exactly when one of the three changed.
\<close>

definition render :: "hero \<Rightarrow> hero" where
  "render s =
     (if mounted s \<and> deps s \<noteq> (charIdx s, deleting s, roleIdx s)
      then effect_run (effect_cleanup s) else s)"

text \<open>
  The callback of the effect's timer, branch by branch. With \<^verbatim>\<open>current\<close> undefined the
  first test that reads \<^verbatim>\<open>current.length\<close> or calls \<^verbatim>\<open>current.slice\<close> throws a TypeError.
  (For an empty role list \<^verbatim>\<open>(i + 1) % roles.length\<close> is NaN in JavaScript, which \<open>nat\<close>
  does not hold; every theorem below is about a non-empty list.)
\<close>

definition tick :: "string list \<Rightarrow> int \<Rightarrow> bool \<Rightarrow> nat \<Rightarrow> hero \<Rightarrow> hero" where
  "tick roles charIdx' deleting' roleIdx' s =
     (case role_at roles roleIdx' of
        None \<Rightarrow>
          if \<not> deleting' \<or> charIdx' > 0 then throw s
          else setRoleIdx (\<lambda>i. (i + 1) mod length roles) (setDeleting False s)
      | Some current \<Rightarrow>
          if \<not> deleting' \<and> charIdx' < int (length current) then
            setCharIdx (\<lambda>c. c + 1) (setTyped (slice0 current (charIdx' + 1)) s)
          else if \<not> deleting' \<and> charIdx' = int (length current) then
            setTimeout Pause 1800 s
          else if deleting' \<and> charIdx' > 0 then
            setCharIdx (\<lambda>c. c - 1) (setTyped (slice0 current (charIdx' - 1)) s)
          else
            setRoleIdx (\<lambda>i. (i + 1) mod length roles) (setDeleting False s))"

fun run_cb :: "string list \<Rightarrow> callback \<Rightarrow> hero \<Rightarrow> hero" where
  "run_cb roles (Tick c d r) s = tick roles c d r s"
| "run_cb roles Pause s = setDeleting True s"

text \<open>
  The event loop: the pending timer that is due first fires (the one created first among
  equals), the clock moves to its due time, its callback runs, and the component renders.
\<close>

fun earliest :: "timer list \<Rightarrow> timer option" where
  "earliest [] = None"
| "earliest (t # ts) =
     (case earliest ts of
        None \<Rightarrow> Some t
      | Some u \<Rightarrow> if due t \<le> due u then Some t else Some u)"

definition fire :: "string list \<Rightarrow> timer \<Rightarrow> hero \<Rightarrow> hero" where
  "fire roles t s =
     render (run_cb roles (cb t)
       (s\<lparr>timers := filter (\<lambda>u. tid u \<noteq> tid t) (timers s), now := max (now s) (due t)\<rparr>))"

definition step :: "string list \<Rightarrow> hero \<Rightarrow> hero" where
  "step roles s = (case earliest (timers s) of None \<Rightarrow> s | Some t \<Rightarrow> fire roles t s)"

text \<open>Mount: the initial values of the \<^verbatim>\<open>useState\<close> cells, then the effect.\<close>

definition mount :: hero where
  "mount =
     effect_run
       \<lparr>typed = [], roleIdx = 0, charIdx = 0, deleting = False, deps = (0, False, 0),
        timeout = None, timers = [], next_id = 0, now = 0, mounted = True, thrown = 0,
        late_sets = 0\<rparr>"

text \<open>Unmount: the framework runs the cleanup of the effect.\<close>

definition unmount :: "hero \<Rightarrow> hero" where
  "unmount s = (if mounted s then (effect_cleanup s)\<lparr>mounted := False\<rparr> else s)"

datatype event = Advance | Unmount

fun exec :: "string list \<Rightarrow> hero \<Rightarrow> event \<Rightarrow> hero" where
  "exec roles s Advance = step roles s"
| "exec roles s Unmount = unmount s"

definition run :: "string list \<Rightarrow> event list \<Rightarrow> hero \<Rightarrow> hero" where
  "run roles evs s = foldl (exec roles) s evs"

text \<open>
  The shapes of the states a mounted typewriter passes through, as executable predicates.
  \<open>text_ok\<close>: the indices are in range and the displayed text is the prefix of the current
  role of length \<^verbatim>\<open>charIdx\<close>.
\<close>

definition text_ok :: "string list \<Rightarrow> hero \<Rightarrow> bool" where
  "text_ok roles s \<longleftrightarrow>
     roleIdx s < length roles \<and> 0 \<le> charIdx s \<and>
     charIdx s \<le> int (length (roles ! roleIdx s)) \<and>
     typed s = take (nat (charIdx s)) (roles ! roleIdx s)"

text \<open>
  \<open>armed\<close>: the only pending timer is the tick of the latest effect, closed over the
  current state, held by the cleanup, due 60 ms or 100 ms from now.
\<close>

definition armed :: "string list \<Rightarrow> hero \<Rightarrow> bool" where
  "armed roles s \<longleftrightarrow>
     mounted s \<and> text_ok roles s \<and> deps s = (charIdx s, deleting s, roleIdx s) \<and>
     (case timers s of
        [t] \<Rightarrow> cb t = Tick (charIdx s) (deleting s) (roleIdx s) \<and>
               due t = now s + (if deleting s then 60 else 100) \<and>
               timeout s = Some (tid t) \<and> tid t < next_id s
      | _ \<Rightarrow> False)"

text \<open>
  \<open>pausing\<close>: the role is fully typed, the tick has fired and the only pending timer is
  the nested 1800 ms one, which no cleanup holds.
\<close>

definition pausing :: "string list \<Rightarrow> hero \<Rightarrow> bool" where
  "pausing roles s \<longleftrightarrow>
     mounted s \<and> text_ok roles s \<and> \<not> deleting s \<and>
     charIdx s = int (length (roles ! roleIdx s)) \<and>
     deps s = (charIdx s, deleting s, roleIdx s) \<and>
     (case timers s of
        [t] \<Rightarrow> cb t = Pause \<and> due t = now s + 1800 \<and> tid t < next_id s \<and>
               (case timeout s of None \<Rightarrow> False | Some h \<Rightarrow> h \<noteq> tid t \<and> h < next_id s)
      | _ \<Rightarrow> False)"

text \<open>\<open>torn\<close>: unmounted, with nothing pending but nested pause timers.\<close>

definition torn :: "string list \<Rightarrow> hero \<Rightarrow> bool" where
  "torn roles s \<longleftrightarrow>
     \<not> mounted s \<and> text_ok roles s \<and> list_all (\<lambda>t. cb t = Pause) (timers s)"

text \<open>The start of a cycle at role \<open>i\<close>: nothing typed, not deleting, the tick armed.\<close>

definition cycle_start :: "string list \<Rightarrow> nat \<Rightarrow> hero \<Rightarrow> bool" where
  "cycle_start roles i s \<longleftrightarrow>
     armed roles s \<and> roleIdx s = i \<and> charIdx s = 0 \<and> \<not> deleting s"

text \<open>
  One cycle at role \<open>i\<close> is one timer firing per character typed, the tick that starts the
  pause, the pause timer, one firing per character deleted, and the tick that moves to the
  next role.
\<close>

definition cycle_steps :: "string list \<Rightarrow> nat \<Rightarrow> nat" where
  "cycle_steps roles i = 2 * length (roles ! i) + 3"

definition cycle :: "string list \<Rightarrow> hero \<Rightarrow> hero" where
  "cycle roles s = (step roles ^^ cycle_steps roles (roleIdx s)) s"

text \<open>Every state of a run has one of the three shapes.\<close>

definition hero_inv :: "string list \<Rightarrow> hero \<Rightarrow> bool" where
  "hero_inv roles s \<longleftrightarrow> armed roles s \<or> pausing roles s \<or> torn roles s"

section \<open>The hook useReveal and the wrapper Reveal\<close>

text \<open>
  The intersection observer of the host: its threshold option and the regions it watches.
  \<^verbatim>\<open>observe\<close> adds a region once, \<^verbatim>\<open>disconnect\<close> empties the list. The literal
  \<^verbatim>\<open>0.12\<close> of the source is the fraction \<open>12/100\<close>.
\<close>

record observer =
  threshold :: rat
  targets :: "nat list"

definition new_observer :: "rat \<Rightarrow> observer" where
  "new_observer th = \<lparr>threshold = th, targets = []\<rparr>"

definition observe :: "nat \<Rightarrow> observer \<Rightarrow> observer" where
  "observe r ob = (if r \<in> set (targets ob) then ob else ob\<lparr>targets := targets ob @ [r]\<rparr>)"

definition disconnect :: "observer \<Rightarrow> observer" where
  "disconnect ob = ob\<lparr>targets := []\<rparr>"

text \<open>An entry the observer reports; the callback reads only \<^verbatim>\<open>isIntersecting\<close>.\<close>

record entry =
  isIntersecting :: bool

text \<open>
  The state of one use of the hook: the region behind \<^verbatim>\<open>ref.current\<close> (if any), the
  \<^verbatim>\<open>visible\<close> cell, the observer \<^verbatim>\<open>obs\<close>, whether the component is mounted, how often
  \<^verbatim>\<open>obs.disconnect()\<close> has been called, and the number of uncaught exceptions.
\<close>

record reveal =
  ref :: "nat option"
  visible :: bool
  obs :: observer
  rv_mounted :: bool
  disconnects :: nat
  rv_thrown :: nat

definition setVisible :: "bool \<Rightarrow> reveal \<Rightarrow> reveal" where
  "setVisible v s = (if rv_mounted s then s\<lparr>visible := v\<rparr> else s)"

definition obs_disconnect :: "reveal \<Rightarrow> reveal" where
  "obs_disconnect s = s\<lparr>obs := disconnect (obs s), disconnects := Suc (disconnects s)\<rparr>"

text \<open>
  The observer's callback \<^verbatim>\<open>([e]) => { if (e.isIntersecting) { setVisible(true);
  obs.disconnect(); } }\<close>: it looks at the first entry of the batch only; on an empty batch
  \<^verbatim>\<open>e\<close> is undefined and reading \<^verbatim>\<open>e.isIntersecting\<close> throws.
\<close>

definition on_entries :: "entry list \<Rightarrow> reveal \<Rightarrow> reveal" where
  "on_entries es s =
     (case es of
        [] \<Rightarrow> s\<lparr>rv_thrown := Suc (rv_thrown s)\<rparr>
      | e # _ \<Rightarrow> if isIntersecting e then obs_disconnect (setVisible True s) else s)"

text \<open>The effect of the hook at mount, and its cleanup at unmount.\<close>

definition useReveal :: "nat option \<Rightarrow> reveal" where
  "useReveal r =
     (let s = \<lparr>ref = r, visible = False, obs = new_observer (12 / 100), rv_mounted = True,
               disconnects = 0, rv_thrown = 0\<rparr>
      in case r of None \<Rightarrow> s | Some el \<Rightarrow> s\<lparr>obs := observe el (obs s)\<rparr>)"

definition reveal_unmount :: "reveal \<Rightarrow> reveal" where
  "reveal_unmount s = (if rv_mounted s then (obs_disconnect s)\<lparr>rv_mounted := False\<rparr> else s)"

text \<open>
  What can happen to a mounted hook: the host delivers a batch of entries (only an observer
  that still watches a region is notified), or the component is unmounted.
\<close>

datatype reveal_event = Notify "entry list" | RevealUnmount

fun reveal_exec :: "reveal \<Rightarrow> reveal_event \<Rightarrow> reveal" where
  "reveal_exec s (Notify es) = (if targets (obs s) = [] then s else on_entries es s)"
| "reveal_exec s RevealUnmount = reveal_unmount s"

definition reveal_run :: "reveal_event list \<Rightarrow> reveal \<Rightarrow> reveal" where
  "reveal_run evs s = foldl reveal_exec s evs"

text \<open>The values \<^verbatim>\<open>visible\<close> takes along a run, the starting one first.\<close>

fun visible_trace :: "reveal \<Rightarrow> reveal_event list \<Rightarrow> bool list" where
  "visible_trace s [] = [visible s]"
| "visible_trace s (ev # evs) = visible s # visible_trace (reveal_exec s ev) evs"

text \<open>No entry of any delivered batch reports an intersection.\<close>

definition never_intersecting :: "reveal_event list \<Rightarrow> bool" where
  "never_intersecting evs =
     list_all (\<lambda>ev. case ev of Notify es \<Rightarrow> list_all (\<lambda>e. \<not> isIntersecting e) es
                      | RevealUnmount \<Rightarrow> True) evs"

text \<open>The number of places where a trace goes from \<open>a\<close> to \<open>b\<close>.\<close>

fun transitions :: "bool \<Rightarrow> bool \<Rightarrow> bool list \<Rightarrow> nat" where
  "transitions a b (x # y # zs) =
     (if x = a \<and> y = b then 1 else 0) + transitions a b (y # zs)"
| "transitions a b _ = 0"

text \<open>
  Two facts every state of a run satisfies: once the flag is set or the component is
  unmounted the observer watches nothing, and the number of \<^verbatim>\<open>disconnect\<close> calls is
  determined by the flag and by whether the component is still mounted.
\<close>

definition released :: "reveal \<Rightarrow> bool" where
  "released s \<longleftrightarrow> (visible s \<or> \<not> rv_mounted s \<longrightarrow> targets (obs s) = [])"

definition counted :: "reveal \<Rightarrow> bool" where
  "counted s \<longleftrightarrow>
     (if rv_mounted s then disconnects s = (if visible s then 1 else 0)
      else disconnects s = (if visible s then 2 else 1))"













section \<open>The theme\<close>

text \<open>\<^verbatim>\<open>useTheme\<close>: one boolean cell, initially true, and the toggle \<^verbatim>\<open>d => !d\<close>.\<close>

record theme =
  dark :: bool

definition useTheme :: theme where
  "useTheme = \<lparr>dark = True\<rparr>"

definition toggle :: "theme \<Rightarrow> theme" where
  "toggle s = s\<lparr>dark := \<not> dark s\<rparr>"

record palette =
  bg :: string
  surface :: string
  card_c :: string
  border :: string
  accent :: string
  accentSoft :: string
  text_c :: string
  muted :: string
  grad :: string

definition T_dark :: palette where
  "T_dark =
     \<lparr>bg = ''#0a0a0f'', surface = ''#12121a'', card_c = ''#17172200'', border = ''#2a2a3a'',
      accent = ''#f59e0b'', accentSoft = ''#f59e0b22'', text_c = ''#e8e8f0'',
      muted = ''#8888aa'',
      grad = ''linear-gradient(135deg,#f59e0b22 0%,transparent 60%)''\<rparr>"

definition T_light :: palette where
  "T_light =
     \<lparr>bg = ''#f5f4ef'', surface = ''#ffffff'', card_c = ''#ffffff'', border = ''#e0ddd5'',
      accent = ''#c2770a'', accentSoft = ''#c2770a18'', text_c = ''#1a1a2e'',
      muted = ''#6b6b80'',
      grad = ''linear-gradient(135deg,#c2770a18 0%,transparent 60%)''\<rparr>"

text \<open>
  What \<^verbatim>\<open>App\<close> hands to its children: \<^verbatim>\<open>Nav\<close> gets the boolean (and computes its own
  palette from it, by the same expression), \<^verbatim>\<open>Hero\<close> the palette and the boolean, the
  other sections the palette.
\<close>

record app_props =
  nav_dark :: bool
  nav_c :: palette
  hero_c :: palette
  hero_dark :: bool
  about_c :: palette
  skills_c :: palette
  projects_c :: palette
  experience_c :: palette
  contact_c :: palette
  footer_c :: palette

definition App :: "theme \<Rightarrow> app_props" where
  "App s =
     (let c = (if dark s then T_dark else T_light)
      in \<lparr>nav_dark = dark s, nav_c = (if dark s then T_dark else T_light), hero_c = c,
          hero_dark = dark s, about_c = c, skills_c = c, projects_c = c, experience_c = c,
          contact_c = c, footer_c = c\<rparr>)"

section \<open>The contact form\<close>

record form =
  name :: string
  email :: string
  message :: string

text \<open>What a handler asks of the host.\<close>

datatype host_call = PreventDefault | SetTimeout nat

text \<open>
  The two \<^verbatim>\<open>useState\<close> cells of \<^verbatim>\<open>Contact\<close>, the due times of the pending
  \<^verbatim>\<open>() => setSent(false)\<close> timers, the clock, and the host calls made so far.
\<close>

record contact =
  form :: form
  sent :: bool
  sent_timers :: "nat list"
  clock :: nat
  calls :: "host_call list"

definition Contact :: contact where
  "Contact =
     \<lparr>form = \<lparr>name = [], email = [], message = []\<rparr>, sent = False, sent_timers = [],
      clock = 0, calls = []\<rparr>"

definition handleSubmit :: "contact \<Rightarrow> contact" where
  "handleSubmit s =
     s\<lparr>sent := True,
       form := \<lparr>name = [], email = [], message = []\<rparr>,
       sent_timers := sent_timers s @ [clock s + 4000],
       calls := calls s @ [PreventDefault, SetTimeout 4000]\<rparr>"

text \<open>The \<^verbatim>\<open>onChange\<close> handlers of the three fields.\<close>

definition change_name :: "string \<Rightarrow> contact \<Rightarrow> contact" where
  "change_name v s = s\<lparr>form := (form s)\<lparr>name := v\<rparr>\<rparr>"

definition change_email :: "string \<Rightarrow> contact \<Rightarrow> contact" where
  "change_email v s = s\<lparr>form := (form s)\<lparr>email := v\<rparr>\<rparr>"

definition change_message :: "string \<Rightarrow> contact \<Rightarrow> contact" where
  "change_message v s = s\<lparr>form := (form s)\<lparr>message := v\<rparr>\<rparr>"

text \<open>The oldest pending timer fires (all have the same delay): \<^verbatim>\<open>setSent(false)\<close>.\<close>

definition sent_timeout :: "contact \<Rightarrow> contact" where
  "sent_timeout s =
     (case sent_timers s of
        [] \<Rightarrow> s
      | d # ds \<Rightarrow> s\<lparr>sent := False, sent_timers := ds, clock := max (clock s) d\<rparr>)"

text \<open>
  The event loop up to the time \<open>t\<close>: as long as the oldest pending timer is due it fires;
  then the clock is at \<open>t\<close>. (All timers have the same delay, so the oldest is the one due
  first.) \<open>elapse\<close> lets \<open>ms\<close> milliseconds pass.
\<close>

function elapse_to :: "nat \<Rightarrow> contact \<Rightarrow> contact" where
  "elapse_to t s =
     (case sent_timers s of
        [] \<Rightarrow> s\<lparr>clock := max (clock s) t\<rparr>
      | d # ds \<Rightarrow> if d \<le> t then elapse_to t (sent_timeout s) else s\<lparr>clock := max (clock s) t\<rparr>)"
  by pat_completeness auto
termination
  by (relation "measure (\<lambda>(t, s). length (sent_timers s))") (auto simp: sent_timeout_def)

declare elapse_to.simps [simp del]

definition elapse :: "nat \<Rightarrow> contact \<Rightarrow> contact" where
  "elapse ms s = elapse_to (clock s + ms) s"

text \<open>What happens to the form: the user types, submits, or time passes.\<close>

datatype contact_event =
  ChangeName string | ChangeEmail string | ChangeMessage string | Submit | Elapse nat

fun contact_exec :: "contact \<Rightarrow> contact_event \<Rightarrow> contact" where
  "contact_exec s (ChangeName v) = change_name v s"
| "contact_exec s (ChangeEmail v) = change_email v s"
| "contact_exec s (ChangeMessage v) = change_message v s"
| "contact_exec s Submit = handleSubmit s"
| "contact_exec s (Elapse ms) = elapse ms s"

definition contact_run :: "contact_event list \<Rightarrow> contact \<Rightarrow> contact" where
  "contact_run evs s = foldl contact_exec s evs"

text \<open>Every pending timer of a run is due within 4000 ms.\<close>

definition due_soon :: "contact \<Rightarrow> bool" where
  "due_soon s = list_all (\<lambda>d. d \<le> clock s + 4000) (sent_timers s)"

text \<open>The state of the whole page: the theme, the typewriter and the contact form.\<close>

record page =
  theme_st :: theme
  hero_st :: hero
  contact_st :: contact

definition submit :: "page \<Rightarrow> page" where
  "submit p = p\<lparr>contact_st := handleSubmit (contact_st p)\<rparr>"

definition sent_expires :: "page \<Rightarrow> page" where
  "sent_expires p = p\<lparr>contact_st := sent_timeout (contact_st p)\<rparr>"

section \<open>Properties of the typewriter\<close>

text \<open>
  What the shape predicates say about the timer queue, in the form the proofs below use.
\<close>

lemma armed_timer:
  assumes "armed roles s"
  obtains t where "timers s = [t]" "cb t = Tick (charIdx s) (deleting s) (roleIdx s)"
    "due t = now s + (if deleting s then 60 else 100)" "timeout s = Some (tid t)"
    "tid t < next_id s"
  using assms by (auto simp: armed_def split: list.splits)

lemma armed_facts:
  assumes "armed roles s"
  shows "mounted s" "text_ok roles s" "deps s = (charIdx s, deleting s, roleIdx s)"
  using assms by (simp_all add: armed_def)

lemma pausing_timer:
  assumes "pausing roles s"
  obtains t h where "timers s = [t]" "cb t = Pause" "due t = now s + 1800" "tid t < next_id s"
    "timeout s = Some h" "h \<noteq> tid t" "h < next_id s"
  using assms by (auto simp: pausing_def split: list.splits option.splits)

lemma pausing_facts:
  assumes "pausing roles s"
  shows "mounted s" "text_ok roles s" "\<not> deleting s"
    "charIdx s = int (length (roles ! roleIdx s))" "deps s = (charIdx s, deleting s, roleIdx s)"
  using assms by (simp_all add: pausing_def)

text \<open>
  One firing of the only pending timer, in each of the five situations a mounted
  typewriter can be in: typing, fully typed, pausing, deleting, fully deleted.
\<close>

lemma step_single: "timers s = [t] \<Longrightarrow> step roles s = fire roles t s"
  by (simp add: step_def)

lemmas hero_defs = fire_def render_def effect_run_def effect_cleanup_def setTimeout_def
  clearTimeout_def setTyped_def setCharIdx_def setDeleting_def setRoleIdx_def tick_def
  role_at_def slice0_def

lemma step_typing:
  assumes "armed roles s" "\<not> deleting s" "charIdx s < int (length (roles ! roleIdx s))"
  shows "armed roles (step roles s) \<and> \<not> deleting (step roles s) \<and>
         roleIdx (step roles s) = roleIdx s \<and> charIdx (step roles s) = charIdx s + 1 \<and>
         now (step roles s) = now s + 100"
proof -
  from assms(1) obtain t where "timers s = [t]" "cb t = Tick (charIdx s) (deleting s) (roleIdx s)"
    "due t = now s + (if deleting s then 60 else 100)" "timeout s = Some (tid t)"
    "tid t < next_id s" by (rule armed_timer)
  then show ?thesis using armed_facts [OF assms(1)] assms(2,3)
    by (simp add: step_single hero_defs armed_def text_ok_def nat_add_distrib)
qed

lemma step_full:
  assumes "armed roles s" "\<not> deleting s" "charIdx s = int (length (roles ! roleIdx s))"
  shows "pausing roles (step roles s) \<and> typed (step roles s) = typed s \<and>
         roleIdx (step roles s) = roleIdx s \<and> charIdx (step roles s) = charIdx s \<and>
         now (step roles s) = now s + 100"
proof -
  from assms(1) obtain t where "timers s = [t]" "cb t = Tick (charIdx s) (deleting s) (roleIdx s)"
    "due t = now s + (if deleting s then 60 else 100)" "timeout s = Some (tid t)"
    "tid t < next_id s" by (rule armed_timer)
  then show ?thesis using armed_facts [OF assms(1)] assms(2,3)
    by (simp add: step_single hero_defs pausing_def text_ok_def)
qed

lemma step_pause:
  assumes "pausing roles s"
  shows "armed roles (step roles s) \<and> deleting (step roles s) \<and> typed (step roles s) = typed s \<and>
         roleIdx (step roles s) = roleIdx s \<and> charIdx (step roles s) = charIdx s \<and>
         now (step roles s) = now s + 1800"
proof -
  from assms obtain t h where "timers s = [t]" "cb t = Pause" "due t = now s + 1800"
    "tid t < next_id s" "timeout s = Some h" "h \<noteq> tid t" "h < next_id s"
    by (rule pausing_timer)
  then show ?thesis using pausing_facts [OF assms]
    by (simp add: step_single hero_defs armed_def text_ok_def)
qed

lemma step_deleting:
  assumes "armed roles s" "deleting s" "0 < charIdx s"
  shows "armed roles (step roles s) \<and> deleting (step roles s) \<and>
         roleIdx (step roles s) = roleIdx s \<and> charIdx (step roles s) = charIdx s - 1 \<and>
         now (step roles s) = now s + 60"
proof -
  from assms(1) obtain t where "timers s = [t]" "cb t = Tick (charIdx s) (deleting s) (roleIdx s)"
    "due t = now s + (if deleting s then 60 else 100)" "timeout s = Some (tid t)"
    "tid t < next_id s" by (rule armed_timer)
  then show ?thesis using armed_facts [OF assms(1)] assms(2,3)
    by (simp add: step_single hero_defs armed_def text_ok_def)
qed

lemma step_empty:
  assumes "armed roles s" "deleting s" "charIdx s = 0"
  shows "armed roles (step roles s) \<and> \<not> deleting (step roles s) \<and>
         roleIdx (step roles s) = (roleIdx s + 1) mod length roles \<and>
         charIdx (step roles s) = 0 \<and> now (step roles s) = now s + 60"
proof -
  from assms(1) obtain t where "timers s = [t]" "cb t = Tick (charIdx s) (deleting s) (roleIdx s)"
    "due t = now s + (if deleting s then 60 else 100)" "timeout s = Some (tid t)"
    "tid t < next_id s" by (rule armed_timer)
  moreover have "0 < length roles"
    using armed_facts(2) [OF assms(1)] by (auto simp: text_ok_def)
  then have "Suc (roleIdx s) mod length roles < length roles"
    by (rule mod_less_divisor)
  ultimately show ?thesis using armed_facts [OF assms(1)] assms(2,3)
    by (simp add: step_single hero_defs armed_def text_ok_def)
qed

text \<open>
  The typing phase and the deleting phase, by induction on the number of characters left.
\<close>

lemma typing_phase:
  assumes "armed roles s" "\<not> deleting s"
    "charIdx s + int m = int (length (roles ! roleIdx s))"
  shows "armed roles ((step roles ^^ m) s) \<and> \<not> deleting ((step roles ^^ m) s) \<and>
         roleIdx ((step roles ^^ m) s) = roleIdx s \<and>
         charIdx ((step roles ^^ m) s) = int (length (roles ! roleIdx s)) \<and>
         now ((step roles ^^ m) s) = now s + 100 * m"
  using assms
proof (induction m arbitrary: s)
  case 0
  then show ?case by simp
next
  case (Suc m)
  have lt: "charIdx s < int (length (roles ! roleIdx s))"
    using Suc.prems(3) by simp
  note st = step_typing [OF Suc.prems(1,2) lt]
  have "charIdx (step roles s) + int m = int (length (roles ! roleIdx (step roles s)))"
    using st Suc.prems(3) by simp
  with st have "armed roles ((step roles ^^ m) (step roles s)) \<and>
      \<not> deleting ((step roles ^^ m) (step roles s)) \<and>
      roleIdx ((step roles ^^ m) (step roles s)) = roleIdx (step roles s) \<and>
      charIdx ((step roles ^^ m) (step roles s)) = int (length (roles ! roleIdx (step roles s))) \<and>
      now ((step roles ^^ m) (step roles s)) = now (step roles s) + 100 * m"
    by (intro Suc.IH) simp_all
  with st show ?case by (simp add: funpow_swap1)
qed

lemma deleting_phase:
  assumes "armed roles s" "deleting s" "charIdx s = int m"
  shows "armed roles ((step roles ^^ m) s) \<and> deleting ((step roles ^^ m) s) \<and>
         roleIdx ((step roles ^^ m) s) = roleIdx s \<and>
         charIdx ((step roles ^^ m) s) = 0 \<and>
         now ((step roles ^^ m) s) = now s + 60 * m"
  using assms
proof (induction m arbitrary: s)
  case 0
  then show ?case by simp
next
  case (Suc m)
  have pos: "0 < charIdx s" using Suc.prems(3) by simp
  note st = step_deleting [OF Suc.prems(1,2) pos]
  have "charIdx (step roles s) = int m" using st Suc.prems(3) by simp
  with st have "armed roles ((step roles ^^ m) (step roles s)) \<and>
      deleting ((step roles ^^ m) (step roles s)) \<and>
      roleIdx ((step roles ^^ m) (step roles s)) = roleIdx (step roles s) \<and>
      charIdx ((step roles ^^ m) (step roles s)) = 0 \<and>
      now ((step roles ^^ m) (step roles s)) = now (step roles s) + 60 * m"
    by (intro Suc.IH) simp_all
  with st show ?case by (simp add: funpow_swap1)
qed

text \<open>
  One cycle is the five phases in sequence; it takes 160 ms per character and 1960 ms
  more.
\<close>

lemma cycle_once:
  assumes "cycle_start roles i s"
  shows "cycle_start roles ((i + 1) mod length roles) (cycle roles s) \<and>
         now (cycle roles s) = now s + 160 * length (roles ! i) + 1960"
proof -
  define n where "n = length (roles ! i)"
  from assms have a: "armed roles s" and r: "roleIdx s = i" and c: "charIdx s = 0"
    and d: "\<not> deleting s" by (simp_all add: cycle_start_def)
  define s1 where "s1 = (step roles ^^ n) s"
  define s2 where "s2 = step roles s1"
  define s3 where "s3 = step roles s2"
  define s4 where "s4 = (step roles ^^ n) s3"
  define s5 where "s5 = step roles s4"
  have p1: "armed roles s1 \<and> \<not> deleting s1 \<and> roleIdx s1 = i \<and>
      charIdx s1 = int n \<and> now s1 = now s + 100 * n"
    using typing_phase [OF a d, of n] r c by (simp add: s1_def n_def)
  have p2: "pausing roles s2 \<and> roleIdx s2 = i \<and> charIdx s2 = int n \<and>
      now s2 = now s + 100 * n + 100"
    using step_full [of roles s1] p1 by (simp add: s2_def n_def)
  have p3: "armed roles s3 \<and> deleting s3 \<and> roleIdx s3 = i \<and> charIdx s3 = int n \<and>
      now s3 = now s + 100 * n + 1900"
    using step_pause [of roles s2] p2 by (simp add: s3_def)
  have p4: "armed roles s4 \<and> deleting s4 \<and> roleIdx s4 = i \<and> charIdx s4 = 0 \<and>
      now s4 = now s + 160 * n + 1900"
    using deleting_phase [of roles s3 n] p3 by (simp add: s4_def)
  have p5: "armed roles s5 \<and> \<not> deleting s5 \<and> roleIdx s5 = (i + 1) mod length roles \<and>
      charIdx s5 = 0 \<and> now s5 = now s + 160 * n + 1960"
    using step_empty [of roles s4] p4 by (simp add: s5_def)
  have "cycle_steps roles i = Suc (n + Suc (Suc n))"
    by (simp add: cycle_steps_def n_def)
  then have "cycle roles s = (step roles ^^ Suc (n + Suc (Suc n))) s"
    by (simp add: cycle_def r)
  also have "\<dots> = s5"
    unfolding s5_def s4_def s3_def s2_def s1_def
    by (simp only: funpow_add funpow.simps o_apply)
  finally show ?thesis using p5 by (simp add: cycle_start_def n_def)
qed

lemma mount_start: "roles \<noteq> [] \<Longrightarrow> cycle_start roles 0 mount"
  by (simp add: cycle_start_def armed_def text_ok_def mount_def effect_run_def setTimeout_def)

lemma cycles_start:
  assumes "cycle_start roles i s"
  shows "cycle_start roles ((i + k) mod length roles) ((cycle roles ^^ k) s) \<and>
         now s \<le> now ((cycle roles ^^ k) s)"
proof (induction k)
  case 0
  from assms have "i < length roles" by (simp add: cycle_start_def armed_def text_ok_def)
  with assms show ?case by simp
next
  case (Suc k)
  define s' where "s' = (cycle roles ^^ k) s"
  from Suc have st: "cycle_start roles ((i + k) mod length roles) s'" and le: "now s \<le> now s'"
    by (simp_all add: s'_def)
  note c = cycle_once [OF st]
  have "((i + k) mod length roles + 1) mod length roles = (i + Suc k) mod length roles"
    by (simp add: mod_Suc_eq)
  with c le show ?case by (simp add: s'_def)
qed

text \<open>
  Claim C4, cycle completeness. From the start of a cycle at any role \<open>i\<close> (nothing typed,
  not deleting, the tick armed), \<open>k\<close> full cycles, each of them the typing ticks, the tick
  that starts the pause, the pause timer, the deleting ticks and the tick that advances,
  end at the start of a cycle at role \<open>(i + k) mod length roles\<close>, with \<^verbatim>\<open>charIdx\<close> 0,
  \<^verbatim>\<open>deleting\<close> false and nothing displayed. One cycle is \<open>k = 1\<close>; as the result is a
  cycle start again the cycle repeats for ever, and a list of one role comes back to it.
\<close>

theorem cycle_completeness:
  assumes "cycle_start roles i s"
  shows "roleIdx ((cycle roles ^^ k) s) = (i + k) mod length roles \<and>
         charIdx ((cycle roles ^^ k) s) = 0 \<and> \<not> deleting ((cycle roles ^^ k) s) \<and>
         typed ((cycle roles ^^ k) s) = [] \<and>
         cycle_start roles ((i + k) mod length roles) ((cycle roles ^^ k) s)"
  using cycles_start [OF assms, of k]
  by (simp add: cycle_start_def armed_def text_ok_def)

text \<open>
  The roles of the specification's example, one and two cycles, and a single role five
  times.
\<close>

theorem cycle_completeness_witness:
  "cycle_start [''A'', ''BB''] 0 mount \<and>
   roleIdx (cycle [''A'', ''BB''] mount) = 1 \<and>
   charIdx (cycle [''A'', ''BB''] mount) = 0 \<and> \<not> deleting (cycle [''A'', ''BB''] mount) \<and>
   roleIdx ((cycle [''A'', ''BB''] ^^ 2) mount) = 0 \<and>
   roleIdx ((cycle [''solo''] ^^ 5) mount) = 0"
proof -
  have a: "cycle_start [''A'', ''BB''] 0 mount" by (rule mount_start) simp
  have b: "cycle_start [''solo''] 0 mount" by (rule mount_start) simp
  show ?thesis
    using a cycle_completeness [OF a, of 1] cycle_completeness [OF a, of 2]
      cycle_completeness [OF b, of 5]
    by simp
qed


text \<open>
  The three shapes are closed under timer firings and under unmount, so every state of a
  run has one of them. After unmount nothing but nested pause timers can be pending, and
  their firing leaves the four cells alone.
\<close>

lemma step_armed:
  assumes "armed roles s"
  shows "armed roles (step roles s) \<or> pausing roles (step roles s)"
proof -
  from assms have ok: "text_ok roles s" by (rule armed_facts)
  consider (typing) "\<not> deleting s" "charIdx s < int (length (roles ! roleIdx s))"
    | (full) "\<not> deleting s" "charIdx s = int (length (roles ! roleIdx s))"
    | (del) "deleting s" "0 < charIdx s"
    | (empty) "deleting s" "charIdx s = 0"
  proof -
    from ok have "0 \<le> charIdx s" "charIdx s \<le> int (length (roles ! roleIdx s))"
      by (simp_all add: text_ok_def)
    then have "charIdx s < int (length (roles ! roleIdx s)) \<or>
        charIdx s = int (length (roles ! roleIdx s))" "0 < charIdx s \<or> charIdx s = 0"
      by linarith+
    then show ?thesis using typing full del empty by (cases "deleting s") blast+
  qed
  then show ?thesis
  proof cases
    case typing
    then show ?thesis using step_typing [OF assms] by simp
  next
    case full
    then show ?thesis using step_full [OF assms] by simp
  next
    case del
    then show ?thesis using step_deleting [OF assms] by simp
  next
    case empty
    then show ?thesis using step_empty [OF assms] by simp
  qed
qed

lemma earliest_mem: "earliest ts = Some t \<Longrightarrow> t \<in> set ts"
  by (induction ts arbitrary: t) (auto split: option.splits if_splits)

lemma step_torn:
  assumes "torn roles s"
  shows "torn roles (step roles s) \<and> typed (step roles s) = typed s \<and>
         charIdx (step roles s) = charIdx s \<and> deleting (step roles s) = deleting s \<and>
         roleIdx (step roles s) = roleIdx s"
proof (cases "earliest (timers s)")
  case None
  then show ?thesis using assms by (simp add: step_def)
next
  case (Some t)
  then have "t \<in> set (timers s)" by (rule earliest_mem)
  with assms have "cb t = Pause" by (simp add: torn_def list_all_iff)
  with assms Some show ?thesis
    by (simp add: step_def fire_def render_def setDeleting_def torn_def text_ok_def list_all_iff)
qed

lemma unmount_inv:
  assumes "hero_inv roles s"
  shows "torn roles (unmount s)"
proof -
  from assms consider "armed roles s" | "pausing roles s" | "torn roles s"
    by (auto simp: hero_inv_def)
  then show ?thesis
  proof cases
    case 1
    then obtain t where "timers s = [t]" "timeout s = Some (tid t)" by (rule armed_timer)
    then show ?thesis using armed_facts [OF 1]
      by (simp add: unmount_def effect_cleanup_def clearTimeout_def torn_def text_ok_def)
  next
    case 2
    then obtain t h where "timers s = [t]" "cb t = Pause" "timeout s = Some h" "h \<noteq> tid t"
      by (rule pausing_timer)
    then show ?thesis using pausing_facts [OF 2]
      by (simp add: unmount_def effect_cleanup_def clearTimeout_def torn_def text_ok_def)
  next
    case 3
    then show ?thesis by (simp add: unmount_def torn_def)
  qed
qed

lemma exec_inv: "hero_inv roles s \<Longrightarrow> hero_inv roles (exec roles s ev)"
proof (cases ev)
  case Advance
  assume "hero_inv roles s"
  then consider "armed roles s" | "pausing roles s" | "torn roles s"
    by (auto simp: hero_inv_def)
  then show ?thesis
  proof cases
    case 1
    then show ?thesis using step_armed [OF 1] Advance by (auto simp: hero_inv_def)
  next
    case 2
    then show ?thesis using step_pause [OF 2] Advance by (simp add: hero_inv_def)
  next
    case 3
    then show ?thesis using step_torn [OF 3] Advance by (simp add: hero_inv_def)
  qed
next
  case Unmount
  assume "hero_inv roles s"
  then show ?thesis using unmount_inv [of roles s] Unmount by (simp add: hero_inv_def)
qed

lemma run_inv: "hero_inv roles s \<Longrightarrow> hero_inv roles (run roles evs s)"
  unfolding run_def by (induction evs arbitrary: s) (simp_all add: exec_inv)

lemma inv_text_ok: "hero_inv roles s \<Longrightarrow> text_ok roles s"
  by (auto simp: hero_inv_def armed_def pausing_def torn_def)

text \<open>
  Claim C1, the prefix invariant. Whatever timers fire and whenever the component is
  unmounted, for a non-empty role list the displayed text is the prefix of the current role
  of length \<^verbatim>\<open>charIdx\<close>, and both indices stay in range.
\<close>

theorem typewriter_prefix_invariant:
  assumes "roles \<noteq> []"
  shows "typed (run roles evs mount) =
           take (nat (charIdx (run roles evs mount))) (roles ! roleIdx (run roles evs mount)) \<and>
         0 \<le> charIdx (run roles evs mount) \<and>
         charIdx (run roles evs mount) \<le> int (length (roles ! roleIdx (run roles evs mount))) \<and>
         roleIdx (run roles evs mount) < length roles"
proof -
  have "hero_inv roles mount"
    using mount_start [OF assms] by (simp add: hero_inv_def cycle_start_def)
  then have "text_ok roles (run roles evs mount)"
    by (intro inv_text_ok run_inv)
  then show ?thesis by (simp add: text_ok_def)
qed

text \<open>
  After three ticks on the roles of the source the first three characters are displayed.
\<close>

theorem typewriter_prefix_invariant_witness:
  "roles_src \<noteq> [] \<and>
   charIdx (run roles_src [Advance, Advance, Advance] mount) = 3 \<and>
   roleIdx (run roles_src [Advance, Advance, Advance] mount) = 0 \<and>
   typed (run roles_src [Advance, Advance, Advance] mount) = take 3 (roles_src ! 0)"
proof -
  have ne: "roles_src \<noteq> []" by (simp add: roles_src_def)
  have c: "charIdx (run roles_src [Advance, Advance, Advance] mount) = 3"
    by code_simp
  have r: "roleIdx (run roles_src [Advance, Advance, Advance] mount) = 0"
    by code_simp
  show ?thesis
    using ne c r typewriter_prefix_invariant [OF ne, of "[Advance, Advance, Advance]"]
    by simp
qed

text \<open>
  Claim C6, timing and step sizes, as the code has them. With the tick armed: while typing
  the tick is due in 100 ms and adds one character; while deleting it is due in 60 ms and
  removes one character; when the role is fully typed the tick is due in 100 ms as well,
  changes no character and schedules the one-shot 1800 ms timer, and when that fires
  \<^verbatim>\<open>deleting\<close> becomes true with no character change.
\<close>

theorem typewriter_timing:
  assumes "armed roles s"
  shows
    "(\<not> deleting s \<and> charIdx s < int (length (roles ! roleIdx s)) \<longrightarrow>
        map due (timers s) = [now s + 100] \<and> now (step roles s) = now s + 100 \<and>
        charIdx (step roles s) = charIdx s + 1 \<and>
        typed (step roles s) = take (nat (charIdx s + 1)) (roles ! roleIdx s) \<and>
        \<not> deleting (step roles s) \<and> roleIdx (step roles s) = roleIdx s) \<and>
     (deleting s \<and> 0 < charIdx s \<longrightarrow>
        map due (timers s) = [now s + 60] \<and> now (step roles s) = now s + 60 \<and>
        charIdx (step roles s) = charIdx s - 1 \<and>
        typed (step roles s) = take (nat (charIdx s - 1)) (roles ! roleIdx s) \<and>
        deleting (step roles s) \<and> roleIdx (step roles s) = roleIdx s) \<and>
     (\<not> deleting s \<and> charIdx s = int (length (roles ! roleIdx s)) \<longrightarrow>
        map due (timers s) = [now s + 100] \<and> now (step roles s) = now s + 100 \<and>
        map cb (timers (step roles s)) = [Pause] \<and>
        map due (timers (step roles s)) = [now (step roles s) + 1800] \<and>
        typed (step roles s) = typed s \<and> charIdx (step roles s) = charIdx s \<and>
        \<not> deleting (step roles s) \<and> roleIdx (step roles s) = roleIdx s \<and>
        now (step roles (step roles s)) = now (step roles s) + 1800 \<and>
        deleting (step roles (step roles s)) \<and>
        typed (step roles (step roles s)) = typed s \<and>
        charIdx (step roles (step roles s)) = charIdx s \<and>
        roleIdx (step roles (step roles s)) = roleIdx s)"
proof -
  from assms obtain t where t: "timers s = [t]"
    "due t = now s + (if deleting s then 60 else 100)" by (rule armed_timer)
  have typing: "map due (timers s) = [now s + 100] \<and> now (step roles s) = now s + 100 \<and>
        charIdx (step roles s) = charIdx s + 1 \<and>
        typed (step roles s) = take (nat (charIdx s + 1)) (roles ! roleIdx s) \<and>
        \<not> deleting (step roles s) \<and> roleIdx (step roles s) = roleIdx s"
    if "\<not> deleting s" "charIdx s < int (length (roles ! roleIdx s))"
  proof -
    note st = step_typing [OF assms that]
    then have "text_ok roles (step roles s)" by (simp add: armed_def)
    with st t that show ?thesis by (simp add: text_ok_def)
  qed
  have del: "map due (timers s) = [now s + 60] \<and> now (step roles s) = now s + 60 \<and>
        charIdx (step roles s) = charIdx s - 1 \<and>
        typed (step roles s) = take (nat (charIdx s - 1)) (roles ! roleIdx s) \<and>
        deleting (step roles s) \<and> roleIdx (step roles s) = roleIdx s"
    if "deleting s" "0 < charIdx s"
  proof -
    note st = step_deleting [OF assms that]
    then have "text_ok roles (step roles s)" by (simp add: armed_def)
    with st t that show ?thesis by (simp add: text_ok_def)
  qed
  have full: "map due (timers s) = [now s + 100] \<and> now (step roles s) = now s + 100 \<and>
        map cb (timers (step roles s)) = [Pause] \<and>
        map due (timers (step roles s)) = [now (step roles s) + 1800] \<and>
        typed (step roles s) = typed s \<and> charIdx (step roles s) = charIdx s \<and>
        \<not> deleting (step roles s) \<and> roleIdx (step roles s) = roleIdx s \<and>
        now (step roles (step roles s)) = now (step roles s) + 1800 \<and>
        deleting (step roles (step roles s)) \<and>
        typed (step roles (step roles s)) = typed s \<and>
        charIdx (step roles (step roles s)) = charIdx s \<and>
        roleIdx (step roles (step roles s)) = roleIdx s"
    if "\<not> deleting s" "charIdx s = int (length (roles ! roleIdx s))"
  proof -
    note st = step_full [OF assms that]
    then have p: "pausing roles (step roles s)" by simp
    from p obtain u where u: "timers (step roles s) = [u]" "cb u = Pause"
      "due u = now (step roles s) + 1800" by (rule pausing_timer)
    note pf = pausing_facts [OF p]
    note sp = step_pause [OF p]
    from st t that u pf sp show ?thesis by simp
  qed
  from typing del full show ?thesis by blast
qed

text \<open>
  The three cases on the role list \<open>[''A'']\<close>: the first tick types, the second starts the
  pause, the fourth deletes.
\<close>

theorem typewriter_timing_witness:
  "armed [''A''] mount \<and> charIdx (step [''A''] mount) = 1 \<and>
   now (step [''A''] mount) = 100 \<and>
   armed [''A''] (step [''A''] mount) \<and>
   now ((step [''A''] ^^ 2) mount) = 200 \<and>
   map due (timers ((step [''A''] ^^ 2) mount)) = [2000] \<and>
   deleting ((step [''A''] ^^ 3) mount) \<and>
   armed [''A''] ((step [''A''] ^^ 3) mount) \<and>
   charIdx ((step [''A''] ^^ 4) mount) = 0 \<and> now ((step [''A''] ^^ 4) mount) = 2060"
proof -
  have a0: "armed [''A''] mount" by code_simp
  have a1: "armed [''A''] (step [''A''] mount)" by code_simp
  have a3: "armed [''A''] (step [''A''] (step [''A''] (step [''A''] mount)))" by code_simp
  have v0: "\<not> deleting mount" "charIdx mount = 0" "roleIdx mount = 0" "now mount = 0"
    by code_simp+
  have v1: "\<not> deleting (step [''A''] mount)" by code_simp
  have v3: "deleting (step [''A''] (step [''A''] (step [''A''] mount)))"
    "charIdx (step [''A''] (step [''A''] (step [''A''] mount))) = 1"
    "now (step [''A''] (step [''A''] (step [''A''] mount))) = 2000"
    by code_simp+
  from typewriter_timing [OF a0] v0
  have s1: "charIdx (step [''A''] mount) = 1" "now (step [''A''] mount) = 100"
    "roleIdx (step [''A''] mount) = 0" by simp_all
  from typewriter_timing [OF a1] v1 s1
  have s2: "now (step [''A''] (step [''A''] mount)) = 200"
    "map due (timers (step [''A''] (step [''A''] mount))) = [2000]" by simp_all
  from typewriter_timing [OF a3] v3
  have s4: "charIdx (step [''A''] (step [''A''] (step [''A''] (step [''A''] mount)))) = 0"
    "now (step [''A''] (step [''A''] (step [''A''] (step [''A''] mount)))) = 2060" by simp_all
  show ?thesis using a0 a1 a3 v3 s1 s2 s4 by (simp add: eval_nat_numeral)
qed

text \<open>
  Claim C6 as stated fails: it has the 1800 ms delay scheduled on entry to the paused
  state. On \<open>[''A'']\<close> the state is entered at 100 ms with \<^verbatim>\<open>charIdx\<close> equal to the length
  of the role; the only timer scheduled then is a tick due at 200 ms, the 1800 ms timer is
  created by that tick, and \<^verbatim>\<open>deleting\<close> becomes true at 2000 ms, which is 1900 ms after
  entry.
\<close>

theorem pause_not_scheduled_on_entry:
  "charIdx (step [''A''] mount) = int (length ([''A''] ! roleIdx (step [''A''] mount))) \<and>
   \<not> deleting (step [''A''] mount) \<and> now (step [''A''] mount) = 100 \<and>
   timers (step [''A''] mount) = [\<lparr>tid = 1, due = 200, cb = Tick 1 False 0\<rparr>] \<and>
   \<not> deleting (step [''A''] (step [''A''] mount)) \<and>
   timers (step [''A''] (step [''A''] mount)) = [\<lparr>tid = 2, due = 2000, cb = Pause\<rparr>] \<and>
   deleting (step [''A''] (step [''A''] (step [''A''] mount))) \<and>
   now (step [''A''] (step [''A''] (step [''A''] mount))) = 2000"
  by code_simp

text \<open>
  Claim C5, the empty role. At the start of a cycle on an empty role the first tick types
  nothing and goes straight to the pause; three timer firings, 100 + 1800 + 60 ms in all,
  lead to the start of the cycle of the next role, and nothing is displayed on the way.
\<close>

theorem empty_role_progress:
  assumes "cycle_start roles i s" "roles ! i = []"
  shows "pausing roles (step roles s) \<and> typed (step roles s) = [] \<and>
         now (step roles s) = now s + 100 \<and>
         typed (step roles (step roles s)) = [] \<and>
         now (step roles (step roles s)) = now s + 1900 \<and>
         cycle_start roles ((i + 1) mod length roles) (step roles (step roles (step roles s))) \<and>
         typed (step roles (step roles (step roles s))) = [] \<and>
         now (step roles (step roles (step roles s))) = now s + 1960"
proof -
  from assms have a: "armed roles s" and r: "roleIdx s = i" and c: "charIdx s = 0"
    and d: "\<not> deleting s" by (simp_all add: cycle_start_def)
  from a c have ty: "typed s = []" by (simp add: armed_def text_ok_def)
  have "charIdx s = int (length (roles ! roleIdx s))" using assms(2) r c by simp
  note s1 = step_full [OF a d this]
  then have p: "pausing roles (step roles s)" by simp
  note s2 = step_pause [OF p]
  have "charIdx (step roles (step roles s)) = 0" using s1 s2 c by simp
  with s2 have "armed roles (step roles (step roles s)) \<and> deleting (step roles (step roles s)) \<and>
      charIdx (step roles (step roles s)) = 0" by simp
  then have s3: "armed roles (step roles (step roles (step roles s))) \<and>
      \<not> deleting (step roles (step roles (step roles s))) \<and>
      roleIdx (step roles (step roles (step roles s))) =
        (roleIdx (step roles (step roles s)) + 1) mod length roles \<and>
      charIdx (step roles (step roles (step roles s))) = 0 \<and>
      now (step roles (step roles (step roles s))) = now (step roles (step roles s)) + 60"
    by (intro step_empty) simp_all
  then have "text_ok roles (step roles (step roles (step roles s)))" by (simp add: armed_def)
  with s3 have t3: "typed (step roles (step roles (step roles s))) = []"
    by (simp add: text_ok_def)
  from s1 s2 s3 t3 ty r show ?thesis by (simp add: cycle_start_def)
qed

text \<open>
  The role list \<open>[]\<close> of the specification.
\<close>

theorem empty_role_progress_witness:
  "cycle_start [''''] 0 mount \<and> [''''] ! 0 = ([] :: string) \<and>
   pausing [''''] (step [''''] mount) \<and>
   cycle_start [''''] 0 (step [''''] (step [''''] (step [''''] mount))) \<and>
   now (step [''''] (step [''''] (step [''''] mount))) = 1960"
proof -
  have a: "cycle_start [''''] 0 mount" by (rule mount_start) simp
  have b: "[''''] ! 0 = ([] :: string)" by simp
  have n: "now mount = 0" by code_simp
  show ?thesis using a b n empty_role_progress [OF a b] by simp
qed

text \<open>
  Claim C3, cancellation at teardown, fails on the code. On the roles of the source the
  seventeenth timer firing (at 1700 ms) is the tick that starts the pause. Unmounting then
  runs the cleanup, which clears the handle of the effect; the nested 1800 ms timer has no
  handle and stays pending, and at 3500 ms it fires and calls a state setter of the
  unmounted component.
\<close>

theorem teardown_leaves_pause_timer:
  "mounted (run roles_src (replicate 17 Advance) mount) \<and>
   \<not> mounted (run roles_src (replicate 17 Advance @ [Unmount]) mount) \<and>
   timers (run roles_src (replicate 17 Advance @ [Unmount]) mount) =
     [\<lparr>tid = 17, due = 3500, cb = Pause\<rparr>] \<and>
   now (run roles_src (replicate 17 Advance @ [Unmount]) mount) = 1700 \<and>
   late_sets (run roles_src (replicate 17 Advance @ [Unmount]) mount) = 0 \<and>
   now (run roles_src (replicate 17 Advance @ [Unmount, Advance]) mount) = 3500 \<and>
   late_sets (run roles_src (replicate 17 Advance @ [Unmount, Advance]) mount) = 1"
  by code_simp

section \<open>Properties of the reveal hook\<close>

text \<open>
  The flag never goes back: no event clears it, so a trace that has reached \<open>True\<close> is
  constant from there on.
\<close>

lemma visible_mono: "visible s \<Longrightarrow> visible (reveal_exec s ev)"
  by (cases ev)
    (auto simp: on_entries_def obs_disconnect_def setVisible_def reveal_unmount_def
      split: list.splits)

lemma visible_stays: "visible s \<Longrightarrow> visible (reveal_run evs s)"
  unfolding reveal_run_def by (induction evs arbitrary: s) (simp_all add: visible_mono)

lemma trace_all_true: "visible s \<Longrightarrow> visible_trace s evs = replicate (Suc (length evs)) True"
  by (induction evs arbitrary: s) (simp_all add: visible_mono)

lemma transitions_replicate: "transitions a b (replicate n True) = (if a \<and> b then n - 1 else 0)"
proof (induction n)
  case 0
  then show ?case by simp
next
  case (Suc n)
  then show ?case by (cases n) auto
qed

lemma trace_Cons: "\<exists>zs. visible_trace s evs = visible s # zs"
  by (cases evs) simp_all

lemma rise_once: "transitions False True (visible_trace s evs) \<le> 1"
proof (induction evs arbitrary: s)
  case Nil
  then show ?case by simp
next
  case (Cons ev evs)
  obtain zs where zs: "visible_trace (reveal_exec s ev) evs = visible (reveal_exec s ev) # zs"
    using trace_Cons by blast
  show ?case
  proof (cases "visible (reveal_exec s ev)")
    case True
    then have "visible_trace (reveal_exec s ev) evs = replicate (Suc (length evs)) True"
      by (rule trace_all_true)
    then have "transitions False True (visible_trace (reveal_exec s ev) evs) = 0"
      by (simp only: transitions_replicate) simp
    then show ?thesis using zs by simp
  next
    case False
    then show ?thesis using zs Cons.IH [of "reveal_exec s ev"] by simp
  qed
qed

lemma never_falls: "transitions True False (visible_trace s evs) = 0"
proof (induction evs arbitrary: s)
  case Nil
  then show ?case by simp
next
  case (Cons ev evs)
  obtain zs where zs: "visible_trace (reveal_exec s ev) evs = visible (reveal_exec s ev) # zs"
    using trace_Cons by blast
  then show ?case using Cons.IH [of "reveal_exec s ev"] visible_mono [of s ev] by auto
qed


text \<open>
  Both facts about the observer hold at mount and are kept by every event.
\<close>

lemma released_exec: "released s \<Longrightarrow> released (reveal_exec s ev)"
  by (cases ev)
    (auto simp: released_def on_entries_def obs_disconnect_def setVisible_def reveal_unmount_def
      disconnect_def split: list.splits)

lemma released_run: "released s \<Longrightarrow> released (reveal_run evs s)"
  unfolding reveal_run_def by (induction evs arbitrary: s) (simp_all add: released_exec)

lemma released_mount: "released (useReveal r)"
  by (cases r) (simp_all add: released_def useReveal_def)

lemma quiet_exec:
  "\<not> visible s \<Longrightarrow> never_intersecting [ev] \<Longrightarrow> \<not> visible (reveal_exec s ev)"
  by (cases ev)
    (auto simp: never_intersecting_def on_entries_def reveal_unmount_def obs_disconnect_def
      split: list.splits)

lemma quiet_run:
  "\<not> visible s \<Longrightarrow> never_intersecting evs \<Longrightarrow> \<not> visible (reveal_run evs s)"
proof (induction evs arbitrary: s)
  case Nil
  then show ?case by (simp add: reveal_run_def)
next
  case (Cons ev evs)
  from Cons.prems(2) have one: "never_intersecting [ev]" and rest: "never_intersecting evs"
    by (simp_all add: never_intersecting_def)
  from Cons.prems(1) one have "\<not> visible (reveal_exec s ev)" by (rule quiet_exec)
  then have "\<not> visible (reveal_run evs (reveal_exec s ev))" using rest by (rule Cons.IH)
  then show ?case by (simp add: reveal_run_def)
qed

text \<open>
  Claim C2, one-way visibility. The flag starts false; along any sequence of notifications
  and unmount it rises at most once and never falls; once it is true the observer watches
  nothing, a further notification changes nothing and the flag stays true; and if no
  delivered entry ever reports an intersection the flag stays false.
\<close>

theorem reveal_one_way:
  "\<not> visible (useReveal r) \<and>
   transitions False True (visible_trace (useReveal r) evs) \<le> 1 \<and>
   transitions True False (visible_trace (useReveal r) evs) = 0 \<and>
   (visible (reveal_run evs (useReveal r)) \<longrightarrow>
      targets (obs (reveal_run evs (useReveal r))) = [] \<and>
      reveal_exec (reveal_run evs (useReveal r)) (Notify es) = reveal_run evs (useReveal r) \<and>
      visible (reveal_run (evs @ later) (useReveal r))) \<and>
   (never_intersecting evs \<longrightarrow> \<not> visible (reveal_run evs (useReveal r)))"
proof -
  have v0: "\<not> visible (useReveal r)" by (cases r) (simp_all add: useReveal_def)
  have rel: "released (reveal_run evs (useReveal r))"
    by (intro released_run released_mount)
  have after: "visible (reveal_run (evs @ later) (useReveal r))"
    if "visible (reveal_run evs (useReveal r))"
    using visible_stays [OF that, of later] by (simp add: reveal_run_def)
  have stop: "targets (obs (reveal_run evs (useReveal r))) = [] \<and>
      reveal_exec (reveal_run evs (useReveal r)) (Notify es) = reveal_run evs (useReveal r)"
    if "visible (reveal_run evs (useReveal r))"
    using rel that by (simp add: released_def)
  have quiet: "\<not> visible (reveal_run evs (useReveal r))" if "never_intersecting evs"
    using v0 that by (rule quiet_run)
  have up: "transitions False True (visible_trace (useReveal r) evs) \<le> 1"
    by (rule rise_once)
  have down: "transitions True False (visible_trace (useReveal r) evs) = 0"
    by (rule never_falls)
  from v0 up down stop after quiet show ?thesis by blast
qed

text \<open>
  A run in which the second notification reports the intersection, and one in which none
  does.
\<close>

theorem reveal_one_way_witness:
  "visible (reveal_run [Notify [\<lparr>isIntersecting = False\<rparr>], Notify [\<lparr>isIntersecting = True\<rparr>]]
     (useReveal (Some 0))) \<and>
   targets (obs (reveal_run [Notify [\<lparr>isIntersecting = False\<rparr>],
     Notify [\<lparr>isIntersecting = True\<rparr>]] (useReveal (Some 0)))) = [] \<and>
   visible (reveal_run ([Notify [\<lparr>isIntersecting = False\<rparr>], Notify [\<lparr>isIntersecting = True\<rparr>]]
     @ [Notify [\<lparr>isIntersecting = False\<rparr>], RevealUnmount]) (useReveal (Some 0))) \<and>
   never_intersecting [Notify [\<lparr>isIntersecting = False\<rparr>], RevealUnmount] \<and>
   \<not> visible (reveal_run [Notify [\<lparr>isIntersecting = False\<rparr>], RevealUnmount]
     (useReveal (Some 0)))"
proof -
  have v: "visible (reveal_run [Notify [\<lparr>isIntersecting = False\<rparr>],
      Notify [\<lparr>isIntersecting = True\<rparr>]] (useReveal (Some 0)))"
    by code_simp
  have n: "never_intersecting [Notify [\<lparr>isIntersecting = False\<rparr>], RevealUnmount]"
    by code_simp
  show ?thesis
    using v n
      reveal_one_way [of "Some 0" "[Notify [\<lparr>isIntersecting = False\<rparr>],
        Notify [\<lparr>isIntersecting = True\<rparr>]]" "[]"
        "[Notify [\<lparr>isIntersecting = False\<rparr>], RevealUnmount]"]
      reveal_one_way [of "Some 0" "[Notify [\<lparr>isIntersecting = False\<rparr>], RevealUnmount]"]
    by blast
qed


text \<open>
  The count of \<^verbatim>\<open>disconnect\<close> calls along a run.
\<close>

lemma counted_exec: "released s \<Longrightarrow> counted s \<Longrightarrow> counted (reveal_exec s ev)"
  by (cases ev)
    (auto simp: released_def counted_def on_entries_def obs_disconnect_def setVisible_def
      reveal_unmount_def disconnect_def split: list.splits if_splits)

lemma counted_run: "released s \<Longrightarrow> counted s \<Longrightarrow> counted (reveal_run evs s)"
  unfolding reveal_run_def
  by (induction evs arbitrary: s) (simp_all add: counted_exec released_exec)

lemma counted_mount: "counted (useReveal r)"
  by (cases r) (simp_all add: counted_def useReveal_def)

lemma run_append: "reveal_run (evs @ evs') s = reveal_run evs' (reveal_run evs s)"
  by (simp add: reveal_run_def)

text \<open>
  Claim C8, release of the watcher. \<^verbatim>\<open>disconnect\<close> is idempotent; after unmount the
  observer watches nothing, whatever happened before (also when the flag never became
  true) and whatever happens after; and \<^verbatim>\<open>disconnect\<close> has then been called twice if the
  flag had been set and once otherwise.
\<close>

theorem reveal_release:
  "disconnect (disconnect ob) = disconnect ob \<and> targets (disconnect ob) = [] \<and>
   targets (obs (reveal_run (evs @ [RevealUnmount]) (useReveal r))) = [] \<and>
   targets (obs (reveal_run (evs @ [RevealUnmount] @ later) (useReveal r))) = [] \<and>
   (rv_mounted (reveal_run evs (useReveal r)) \<longrightarrow>
      disconnects (reveal_run (evs @ [RevealUnmount]) (useReveal r)) =
        (if visible (reveal_run evs (useReveal r)) then 2 else 1))"
proof -
  have idem: "disconnect (disconnect ob) = disconnect ob \<and> targets (disconnect ob) = []"
    by (simp add: disconnect_def)
  define s where "s = reveal_run evs (useReveal r)"
  have gone: "\<not> rv_mounted (reveal_exec s RevealUnmount)"
    by (simp add: reveal_unmount_def obs_disconnect_def)
  have rel: "released (reveal_run (evs @ [RevealUnmount]) (useReveal r))"
    by (intro released_run released_mount)
  have t1: "targets (obs (reveal_run (evs @ [RevealUnmount]) (useReveal r))) = []"
    using rel gone by (simp add: released_def run_append s_def reveal_run_def)
  have rel2: "released (reveal_run (evs @ [RevealUnmount] @ later) (useReveal r))"
    by (intro released_run released_mount)
  have stay: "\<not> rv_mounted z \<Longrightarrow> \<not> rv_mounted (reveal_run later z)" for z
    unfolding reveal_run_def
  proof (induction later arbitrary: z)
    case Nil
    then show ?case by simp
  next
    case (Cons ev evs)
    have "\<not> rv_mounted (reveal_exec z ev)"
      using Cons.prems
      by (cases ev)
        (auto simp: on_entries_def obs_disconnect_def setVisible_def reveal_unmount_def
          split: list.splits)
    then show ?case using Cons.IH by simp
  qed
  have "\<not> rv_mounted (reveal_run (evs @ [RevealUnmount] @ later) (useReveal r))"
    using stay [OF gone] by (simp add: run_append s_def reveal_run_def)
  with rel2 have t2: "targets (obs (reveal_run (evs @ [RevealUnmount] @ later) (useReveal r))) = []"
    by (simp add: released_def)
  have c: "counted s" and rl: "released s"
    unfolding s_def by (intro counted_run released_run released_mount counted_mount)+
  have cnt: "disconnects (reveal_run (evs @ [RevealUnmount]) (useReveal r)) =
        (if visible (reveal_run evs (useReveal r)) then 2 else 1)"
    if "rv_mounted (reveal_run evs (useReveal r))"
  proof -
    from that have m: "rv_mounted s" by (simp add: s_def)
    have "reveal_run (evs @ [RevealUnmount]) (useReveal r) = reveal_unmount s"
      by (simp add: reveal_run_def s_def)
    with m c show ?thesis
      by (simp add: s_def [symmetric] counted_def reveal_unmount_def obs_disconnect_def)
  qed
  from idem t1 t2 cnt show ?thesis by blast
qed

text \<open>
  Unmount after the flag was set, and unmount of a hook that never saw an intersection.
\<close>

theorem reveal_release_witness:
  "rv_mounted (reveal_run [Notify [\<lparr>isIntersecting = True\<rparr>]] (useReveal (Some 0))) \<and>
   disconnects (reveal_run ([Notify [\<lparr>isIntersecting = True\<rparr>]] @ [RevealUnmount])
     (useReveal (Some 0))) = 2 \<and>
   rv_mounted (reveal_run [] (useReveal (Some 0))) \<and>
   disconnects (reveal_run ([] @ [RevealUnmount]) (useReveal (Some 0))) = 1 \<and>
   targets (obs (reveal_run [] (useReveal (Some 0)))) = [0] \<and>
   targets (obs (reveal_run ([] @ [RevealUnmount]) (useReveal (Some 0)))) = []"
proof -
  have m1: "rv_mounted (reveal_run [Notify [\<lparr>isIntersecting = True\<rparr>]] (useReveal (Some 0)))"
    and v1: "visible (reveal_run [Notify [\<lparr>isIntersecting = True\<rparr>]] (useReveal (Some 0)))"
    and m0: "rv_mounted (reveal_run [] (useReveal (Some 0)))"
    and v0: "\<not> visible (reveal_run [] (useReveal (Some 0)))"
    and t0: "targets (obs (reveal_run [] (useReveal (Some 0)))) = [0]"
    by code_simp+
  show ?thesis
    using m1 v1 m0 v0 t0
      reveal_release [of "new_observer 0" "[Notify [\<lparr>isIntersecting = True\<rparr>]]" "Some 0" "[]"]
      reveal_release [of "new_observer 0" "[]" "Some 0" "[]"]
    by simp
qed



















section \<open>Properties of the contact form and the theme\<close>

text \<open>
  The three cases of the event loop, and what every firing keeps: the fields and the host
  calls. A flag that is false stays false, and the flag is true after the loop exactly when
  it was true and the oldest timer was not yet due.
\<close>

lemma elapse_to_Nil: "sent_timers s = [] \<Longrightarrow> elapse_to t s = s\<lparr>clock := max (clock s) t\<rparr>"
  by (subst elapse_to.simps) simp

lemma elapse_to_due:
  "sent_timers s = d # ds \<Longrightarrow> d \<le> t \<Longrightarrow> elapse_to t s = elapse_to t (sent_timeout s)"
  by (subst elapse_to.simps) simp

lemma elapse_to_later:
  "sent_timers s = d # ds \<Longrightarrow> t < d \<Longrightarrow> elapse_to t s = s\<lparr>clock := max (clock s) t\<rparr>"
  by (subst elapse_to.simps) simp

lemma elapse_to_frame: "form (elapse_to t s) = form s \<and> calls (elapse_to t s) = calls s"
proof (induction t s rule: elapse_to.induct)
  case (1 t s)
  show ?case
  proof (cases "sent_timers s")
    case Nil
    then show ?thesis by (simp add: elapse_to_Nil)
  next
    case (Cons d ds)
    show ?thesis
    proof (cases "d \<le> t")
      case True
      have "form (sent_timeout s) = form s \<and> calls (sent_timeout s) = calls s"
        using Cons by (simp add: sent_timeout_def)
      with "1.IH" [OF Cons True] elapse_to_due [OF Cons True] show ?thesis by simp
    next
      case False
      then show ?thesis using Cons by (simp add: elapse_to_later)
    qed
  qed
qed

lemma elapse_to_unsent: "\<not> sent s \<Longrightarrow> \<not> sent (elapse_to t s)"
proof (induction t s rule: elapse_to.induct)
  case (1 t s)
  show ?case
  proof (cases "sent_timers s")
    case Nil
    then show ?thesis using "1.prems" by (simp add: elapse_to_Nil)
  next
    case (Cons d ds)
    show ?thesis
    proof (cases "d \<le> t")
      case True
      have "\<not> sent (sent_timeout s)" using Cons by (simp add: sent_timeout_def)
      with "1.IH" [OF Cons True] elapse_to_due [OF Cons True] show ?thesis by simp
    next
      case False
      then show ?thesis using Cons "1.prems" by (simp add: elapse_to_later)
    qed
  qed
qed

lemma elapse_to_sent:
  assumes "sent_timers s = d # ds"
  shows "sent (elapse_to t s) = (sent s \<and> t < d)"
proof (cases "d \<le> t")
  case True
  have "\<not> sent (sent_timeout s)" using assms by (simp add: sent_timeout_def)
  then have "\<not> sent (elapse_to t (sent_timeout s))" by (rule elapse_to_unsent)
  with True assms show ?thesis by (simp add: elapse_to_due)
next
  case False
  with assms show ?thesis by (simp add: elapse_to_later)
qed

lemma elapse_to_all:
  "list_all (\<lambda>d. d \<le> t) (sent_timers s) \<Longrightarrow> sent_timers (elapse_to t s) = []"
proof (induction t s rule: elapse_to.induct)
  case (1 t s)
  show ?case
  proof (cases "sent_timers s")
    case Nil
    then show ?thesis by (simp add: elapse_to_Nil)
  next
    case (Cons d ds)
    with "1.prems" have le: "d \<le> t" and rest: "list_all (\<lambda>d. d \<le> t) ds" by simp_all
    have "sent_timers (sent_timeout s) = ds" using Cons by (simp add: sent_timeout_def)
    with rest have "list_all (\<lambda>d. d \<le> t) (sent_timers (sent_timeout s))" by simp
    with "1.IH" [OF Cons le] elapse_to_due [OF Cons le] show ?thesis by simp
  qed
qed

lemma elapse_to_keeps:
  "clock s \<le> clock (elapse_to t s) \<and> set (sent_timers (elapse_to t s)) \<subseteq> set (sent_timers s)"
proof (induction t s rule: elapse_to.induct)
  case (1 t s)
  show ?case
  proof (cases "sent_timers s")
    case Nil
    then show ?thesis by (simp add: elapse_to_Nil)
  next
    case (Cons d ds)
    show ?thesis
    proof (cases "d \<le> t")
      case True
      have "clock s \<le> clock (sent_timeout s) \<and>
          set (sent_timers (sent_timeout s)) \<subseteq> set (sent_timers s)"
        using Cons by (auto simp: sent_timeout_def)
      with "1.IH" [OF Cons True] elapse_to_due [OF Cons True] show ?thesis by auto
    next
      case False
      then show ?thesis using Cons by (simp add: elapse_to_later)
    qed
  qed
qed

text \<open>
  Along any run from the initial form every pending timer is due within 4000 ms, so 4000 ms
  after a submit none is left.
\<close>

lemma due_soon_exec: "due_soon s \<Longrightarrow> due_soon (contact_exec s ev)"
proof (cases ev)
  case (Elapse ms)
  assume d: "due_soon s"
  note k = elapse_to_keeps [of s "clock s + ms"]
  have "d \<le> clock (elapse ms s) + 4000" if "d \<in> set (sent_timers (elapse ms s))" for d
  proof -
    from that k have "d \<in> set (sent_timers s)" by (auto simp: elapse_def)
    with d have "d \<le> clock s + 4000" by (simp add: due_soon_def list_all_iff)
    with k show ?thesis by (simp add: elapse_def)
  qed
  then show ?thesis using Elapse by (simp add: due_soon_def list_all_iff)
qed (simp_all add: due_soon_def handleSubmit_def change_name_def change_email_def
    change_message_def)

lemma due_soon_run: "due_soon s \<Longrightarrow> due_soon (contact_run evs s)"
  unfolding contact_run_def by (induction evs arbitrary: s) (simp_all add: due_soon_exec)

lemma due_soon_Contact: "due_soon Contact"
  by (simp add: due_soon_def Contact_def)

lemma submit_reverts:
  assumes "due_soon s"
  shows "\<not> sent (elapse (4000 + n) (handleSubmit s)) \<and>
         sent_timers (elapse (4000 + n) (handleSubmit s)) = []"
proof -
  define u where "u = handleSubmit s"
  define t where "t = clock u + (4000 + n)"
  have c: "clock u = clock s" and ts: "sent_timers u = sent_timers s @ [clock s + 4000]"
    by (simp_all add: u_def handleSubmit_def)
  have all: "list_all (\<lambda>d. d \<le> t) (sent_timers u)"
    using assms by (auto simp: ts t_def c due_soon_def list_all_iff)
  then have e: "sent_timers (elapse_to t u) = []" by (rule elapse_to_all)
  have "sent_timers u \<noteq> []" using ts by simp
  then obtain d ds where dd: "sent_timers u = d # ds"
    by (cases "sent_timers u") auto
  with all have "d \<le> t" by simp
  with elapse_to_sent [OF dd, of t] have "\<not> sent (elapse_to t u)" by simp
  with e show ?thesis by (simp add: elapse_def u_def t_def)
qed

lemma submit_sent_until:
  "sent (elapse n (handleSubmit s)) = (clock s + n < hd (sent_timers s @ [clock s + 4000]))"
proof -
  define u where "u = handleSubmit s"
  have c: "clock u = clock s" and ts: "sent_timers u = sent_timers s @ [clock s + 4000]"
    and sn: "sent u"
    by (simp_all add: u_def handleSubmit_def)
  have "sent_timers u \<noteq> []" using ts by simp
  then obtain d ds where dd: "sent_timers u = d # ds"
    by (cases "sent_timers u") auto
  then have "hd (sent_timers s @ [clock s + 4000]) = d" using ts by simp
  with elapse_to_sent [OF dd, of "clock u + n"] sn c show ?thesis
    by (simp add: elapse_def u_def)
qed

text \<open>
  Claim C9, the frame of the submit handler. Submitting empties the three fields, sets
  \<^verbatim>\<open>sent\<close>, and asks the host for nothing but \<^verbatim>\<open>preventDefault\<close> and one timer, due
  4000 ms later; the theme and the typewriter are untouched. A timer that fires, and any
  amount of time that passes, changes neither the fields nor the host calls: only
  \<^verbatim>\<open>sent\<close> changes, to false. After a submit the flag is true until the oldest pending
  timer is due, which on a fresh form is exactly 4000 ms; and in every run, whatever was
  submitted before, the flag is false and no timer is pending once 4000 ms have passed since
  the submit.
\<close>

theorem contact_submit_frame:
  "form (handleSubmit s) = \<lparr>name = [], email = [], message = []\<rparr> \<and>
   sent (handleSubmit s) \<and>
   calls (handleSubmit s) = calls s @ [PreventDefault, SetTimeout 4000] \<and>
   sent_timers (handleSubmit s) = sent_timers s @ [clock s + 4000] \<and>
   clock (handleSubmit s) = clock s \<and>
   contact_st (submit p) = handleSubmit (contact_st p) \<and>
   theme_st (submit p) = theme_st p \<and> hero_st (submit p) = hero_st p \<and>
   form (sent_timeout s) = form s \<and> calls (sent_timeout s) = calls s \<and>
   form (elapse n s) = form s \<and> calls (elapse n s) = calls s \<and>
   theme_st (sent_expires p) = theme_st p \<and> hero_st (sent_expires p) = hero_st p \<and>
   \<not> sent (sent_timeout (handleSubmit s)) \<and>
   sent (elapse n (handleSubmit s)) = (clock s + n < hd (sent_timers s @ [clock s + 4000])) \<and>
   sent (elapse n (handleSubmit Contact)) = (n < 4000) \<and>
   \<not> sent (elapse (4000 + n) (handleSubmit (contact_run evs Contact))) \<and>
   sent_timers (elapse (4000 + n) (handleSubmit (contact_run evs Contact))) = []"
proof -
  have sub: "form (handleSubmit s) = \<lparr>name = [], email = [], message = []\<rparr> \<and>
      sent (handleSubmit s) \<and>
      calls (handleSubmit s) = calls s @ [PreventDefault, SetTimeout 4000] \<and>
      sent_timers (handleSubmit s) = sent_timers s @ [clock s + 4000] \<and>
      clock (handleSubmit s) = clock s"
    by (simp add: handleSubmit_def)
  have page: "contact_st (submit p) = handleSubmit (contact_st p) \<and>
      theme_st (submit p) = theme_st p \<and> hero_st (submit p) = hero_st p"
    by (simp add: submit_def)
  have page2: "theme_st (sent_expires p) = theme_st p \<and> hero_st (sent_expires p) = hero_st p"
    by (simp add: sent_expires_def)
  have fire: "form (sent_timeout s) = form s \<and> calls (sent_timeout s) = calls s"
    by (simp add: sent_timeout_def split: list.splits)
  have pass: "form (elapse n s) = form s \<and> calls (elapse n s) = calls s"
    using elapse_to_frame [of "clock s + n" s] by (simp add: elapse_def)
  have first: "\<not> sent (sent_timeout (handleSubmit s))"
    by (simp add: sent_timeout_def handleSubmit_def split: list.splits)
  have until: "sent (elapse n (handleSubmit s)) =
      (clock s + n < hd (sent_timers s @ [clock s + 4000]))"
    by (rule submit_sent_until)
  have fresh: "sent (elapse n (handleSubmit Contact)) = (n < 4000)"
    unfolding submit_sent_until by (simp add: Contact_def)
  have "due_soon (contact_run evs Contact)"
    by (intro due_soon_run due_soon_Contact)
  note rev = submit_reverts [OF this, of n]
  from sub page page2 fire pass first until fresh rev show ?thesis
    by (elim conjE) (intro conjI; assumption)
qed

text \<open>
  Two submits 3000 ms apart: the flag set by the second is cleared by the timer of the
  first, 1000 ms later, and 4000 ms after the second submit nothing is pending.
\<close>

theorem contact_submit_frame_witness:
  "sent (contact_run [ChangeName ''Jane'', Submit, Elapse 3000, ChangeName ''Joe'', Submit]
     Contact) \<and>
   \<not> sent (contact_run [ChangeName ''Jane'', Submit, Elapse 3000, ChangeName ''Joe'', Submit,
     Elapse 1000] Contact) \<and>
   sent_timers (contact_run [ChangeName ''Jane'', Submit, Elapse 3000, ChangeName ''Joe'', Submit,
     Elapse 1000] Contact) = [7000] \<and>
   \<not> sent (elapse (4000 + 0) (handleSubmit
     (contact_run [ChangeName ''Jane'', Submit, Elapse 3000, ChangeName ''Joe''] Contact))) \<and>
   sent_timers (elapse (4000 + 0) (handleSubmit
     (contact_run [ChangeName ''Jane'', Submit, Elapse 3000, ChangeName ''Joe''] Contact))) = []"
proof -
  have a: "sent (contact_run [ChangeName ''Jane'', Submit, Elapse 3000, ChangeName ''Joe'',
      Submit] Contact)"
    by code_simp
  have b: "\<not> sent (contact_run [ChangeName ''Jane'', Submit, Elapse 3000, ChangeName ''Joe'',
      Submit, Elapse 1000] Contact)"
    by code_simp
  have c: "sent_timers (contact_run [ChangeName ''Jane'', Submit, Elapse 3000,
      ChangeName ''Joe'', Submit, Elapse 1000] Contact) = [7000]"
    by code_simp
  note t = contact_submit_frame [of Contact "\<lparr>theme_st = useTheme, hero_st = mount,
    contact_st = Contact\<rparr>" 0 "[ChangeName ''Jane'', Submit, Elapse 3000, ChangeName ''Joe'']"]
  from t have d: "\<not> sent (elapse (4000 + 0) (handleSubmit
      (contact_run [ChangeName ''Jane'', Submit, Elapse 3000, ChangeName ''Joe''] Contact)))"
    by (elim conjE)
  from t have e: "sent_timers (elapse (4000 + 0) (handleSubmit
      (contact_run [ChangeName ''Jane'', Submit, Elapse 3000, ChangeName ''Joe''] Contact))) = []"
    by (elim conjE)
  from a b c d e show ?thesis by (intro conjI)
qed

text \<open>
  Claim C10, the theme. The cell starts as dark; toggling twice gives the state back;
  every child of \<^verbatim>\<open>App\<close> gets the dark palette when the cell is true and the light one
  otherwise, so two toggles give the same props and one toggle different ones.
\<close>

theorem theme_toggle_involution:
  "dark useTheme \<and> toggle (toggle s) = s \<and> dark (toggle s) = (\<not> dark s) \<and>
   App s =
     \<lparr>nav_dark = dark s, nav_c = (if dark s then T_dark else T_light),
      hero_c = (if dark s then T_dark else T_light), hero_dark = dark s,
      about_c = (if dark s then T_dark else T_light),
      skills_c = (if dark s then T_dark else T_light),
      projects_c = (if dark s then T_dark else T_light),
      experience_c = (if dark s then T_dark else T_light),
      contact_c = (if dark s then T_dark else T_light),
      footer_c = (if dark s then T_dark else T_light)\<rparr> \<and>
   App (toggle (toggle s)) = App s \<and> App (toggle s) \<noteq> App s \<and>
   hero_c (App useTheme) = T_dark \<and> hero_c (App (toggle useTheme)) = T_light"
proof -
  have ne: "T_dark \<noteq> T_light" by (simp add: T_dark_def T_light_def)
  have tog: "toggle (toggle s) = s" by (simp add: toggle_def)
  have flip: "dark (toggle s) = (\<not> dark s)" by (simp add: toggle_def)
  have app: "hero_c (App z) = (if dark z then T_dark else T_light)" for z
    by (simp add: App_def Let_def)
  have "hero_c (App (toggle s)) \<noteq> hero_c (App s)"
    using ne by (simp only: app flip) (cases "dark s"; simp)
  then have diff: "App (toggle s) \<noteq> App s" by auto
  from ne tog flip diff show ?thesis
    by (simp add: App_def Let_def useTheme_def) (simp add: toggle_def)
qed

end
